theory Spec2Isabelle
  imports Main "HOL-Library.Word"
begin

section \<open>A Brainfuck interpreter in two variants\<close>

text \<open>
  The repository holds a direct interpreter (\<^verbatim>\<open>01_simple.py\<close>: one instruction per
  operator character) and a run-length interpreter (\<^verbatim>\<open>02_batch.py\<close>: instructions are
  pairs of an operator and a repeat count). Both have the functions \<^verbatim>\<open>parse_code\<close>,
  \<^verbatim>\<open>build_jump_table\<close> and \<^verbatim>\<open>run\<close>; the names below carry the suffix
  \<open>_simple\<close> or \<open>_batch\<close> of the file they come from.
\<close>

subsection \<open>Values, errors and the interpreter state\<close>

type_synonym cell = "8 word"

text \<open>
  The exceptions the two files can raise. The two \<^verbatim>\<open>SyntaxError\<close>s of
  \<^verbatim>\<open>build_jump_table\<close> carry the position of their message:
  \<^verbatim>\<open>Unmatched ] at position i\<close> is \<open>UnmatchedCloseBracket i\<close> and
  \<^verbatim>\<open>Unmatched [ at position i\<close> is \<open>UnmatchedOpenBracket i\<close>.
  \<open>RuntimeError c\<close> is \<^verbatim>\<open>RuntimeError("Invalid instruction: c")\<close>.
\<close>

datatype error =
    UnmatchedCloseBracket nat
  | UnmatchedOpenBracket nat
  | RuntimeError char
  | EOFError
  | IndexError
  | KeyError nat
  | OverflowError

text \<open>
  What \<^verbatim>\<open>print\<close> writes to standard output: \<open>Chr n\<close> is the character
  \<^verbatim>\<open>chr(n)\<close>, and \<open>Trace i c p v\<close> is the debug line with the fields
  \<^verbatim>\<open>ip\<close>, \<^verbatim>\<open>cmd\<close>, \<^verbatim>\<open>ptr\<close> and \<^verbatim>\<open>tape[ptr]\<close> (its layout as text differs
  between the two files and is not modelled).
\<close>

datatype event = Chr nat | Trace nat char nat cell

text \<open>
  The local variables of \<^verbatim>\<open>run\<close> together with the two streams it uses. Standard
  input is the list of the lines still to be read, a line being the list of the code
  points of its characters (Python strings hold code points, not bytes).
\<close>

record state =
  ip :: nat
  ptr :: nat
  tape :: "cell list"
  stdin :: "nat list list"
  stdout :: "event list"

text \<open>\<^verbatim>\<open>np.zeros(30_000, dtype=np.uint8)\<close>; the array is never resized, so
  \<^verbatim>\<open>tape.size\<close> and \<^verbatim>\<open>len(tape)\<close> are this constant.\<close>

definition tape_size :: nat where
  "tape_size = 30000"

definition initial :: "nat list list \<Rightarrow> state" where
  "initial inp = \<lparr>ip = 0, ptr = 0, tape = replicate tape_size 0, stdin = inp, stdout = []\<rparr>"

text \<open>
  The conversion of a Python integer to \<^verbatim>\<open>uint8\<close> depends on the NumPy release: up to
  1.x an integer out of range wraps around; from 2.0 on it raises
  \<^verbatim>\<open>OverflowError\<close>. No release is pinned in the source files, so it is a parameter.
\<close>

datatype numpy = NumPy1 | NumPy2

definition as_uint8 :: "numpy \<Rightarrow> int \<Rightarrow> error + cell" where
  "as_uint8 np n =
     (if 0 \<le> n \<and> n < 256 then Inr (word_of_int n)
      else (case np of NumPy1 \<Rightarrow> Inr (word_of_int n) | NumPy2 \<Rightarrow> Inl OverflowError))"

text \<open>Sequencing of steps that may raise.\<close>

definition and_then :: "error + 'a \<Rightarrow> ('a \<Rightarrow> error + 'b) \<Rightarrow> error + 'b" where
  "and_then m f = (case m of Inl e \<Rightarrow> Inl e | Inr x \<Rightarrow> f x)"

text \<open>\<^verbatim>\<open>tape[ptr]\<close> as a read and as an assignment; the pointer is never negative.\<close>

definition getitem :: "cell list \<Rightarrow> nat \<Rightarrow> error + cell" where
  "getitem t p = (if p < length t then Inr (t ! p) else Inl IndexError)"

definition setitem :: "cell list \<Rightarrow> nat \<Rightarrow> cell \<Rightarrow> error + cell list" where
  "setitem t p v = (if p < length t then Inr (t[p := v]) else Inl IndexError)"

text \<open>\<^verbatim>\<open>jump_table[ip]\<close>.\<close>

definition lookup :: "(nat \<rightharpoonup> nat) \<Rightarrow> nat \<Rightarrow> error + nat" where
  "lookup table i = (case table i of None \<Rightarrow> Inl (KeyError i) | Some j \<Rightarrow> Inr j)"

text \<open>\<^verbatim>\<open>np.uint8(ord(input()[0]))\<close>: the first character of the next line, and the
  lines that remain.\<close>

definition read_char :: "numpy \<Rightarrow> nat list list \<Rightarrow> error + (cell \<times> nat list list)" where
  "read_char np inp =
     (case inp of
        [] \<Rightarrow> Inl EOFError
      | line # rest \<Rightarrow>
          (case line of
             [] \<Rightarrow> Inl IndexError
           | c # _ \<Rightarrow> and_then (as_uint8 np (int c)) (\<lambda>v. Inr (v, rest))))"

subsection \<open>The source filter and the two encoders\<close>

definition is_op :: "char \<Rightarrow> bool" where
  "is_op c \<longleftrightarrow> c \<in> set ''+-<>.,[]''"

text \<open>\<^verbatim>\<open>parse_code\<close> of \<^verbatim>\<open>01_simple.py\<close>.\<close>

definition parse_code_simple :: "string \<Rightarrow> string" where
  "parse_code_simple raw = filter is_op raw"

text \<open>
  \<^verbatim>\<open>parse_code\<close> of \<^verbatim>\<open>02_batch.py\<close>. The loop over \<^verbatim>\<open>raw\<close> carries
  \<^verbatim>\<open>last\<close> (here \<open>last_op\<close>), \<^verbatim>\<open>count\<close> and \<^verbatim>\<open>ops\<close>; the first equation is the
  flush after the loop.
\<close>

fun collapse :: "string \<Rightarrow> char option \<Rightarrow> int \<Rightarrow> (char \<times> int) list \<Rightarrow> (char \<times> int) list" where
  "collapse [] last_op count ops =
     (case last_op of None \<Rightarrow> ops | Some c0 \<Rightarrow> ops @ [(c0, count)])"
| "collapse (c # raw) last_op count ops =
     (if \<not> is_op c then collapse raw last_op count ops
      else if Some c = last_op then collapse raw last_op (count + 1) ops
      else collapse raw (Some c) 1
             (case last_op of None \<Rightarrow> ops | Some c0 \<Rightarrow> ops @ [(c0, count)]))"

definition parse_code_batch :: "string \<Rightarrow> (char \<times> int) list" where
  "parse_code_batch raw = collapse raw None 0 []"

subsection \<open>The jump table\<close>

text \<open>
  The scan of \<^verbatim>\<open>build_jump_table\<close>, the same in both files: \<open>i\<close> is the index of
  \<^verbatim>\<open>enumerate\<close>, the stack has its top at the head.
\<close>

fun scan :: "nat \<Rightarrow> string \<Rightarrow> (nat \<rightharpoonup> nat) \<Rightarrow> nat list \<Rightarrow> error + ((nat \<rightharpoonup> nat) \<times> nat list)" where
  "scan i [] table stack = Inr (table, stack)"
| "scan i (c # cs) table stack =
     (if c = CHR ''['' then scan (Suc i) cs table (i # stack)
      else if c = CHR '']'' then
        (case stack of
           [] \<Rightarrow> Inl (UnmatchedCloseBracket i)
         | open_idx # stack' \<Rightarrow> scan (Suc i) cs (table(open_idx \<mapsto> i, i \<mapsto> open_idx)) stack')
      else scan (Suc i) cs table stack)"

definition build_jump_table :: "string \<Rightarrow> error + (nat \<rightharpoonup> nat)" where
  "build_jump_table code =
     and_then (scan 0 code Map.empty [])
       (\<lambda>(table, stack).
          case stack of [] \<Rightarrow> Inr table | open_idx # _ \<Rightarrow> Inl (UnmatchedOpenBracket open_idx))"

text \<open>In \<^verbatim>\<open>02_batch.py\<close> the scan reads the operator of each pair and ignores the count.\<close>

definition build_jump_table_batch :: "(char \<times> int) list \<Rightarrow> error + (nat \<rightharpoonup> nat)" where
  "build_jump_table_batch ops = build_jump_table (map fst ops)"

subsection \<open>The execution loop\<close>

text \<open>The end of an iteration that did not jump: the debug line, then \<^verbatim>\<open>ip += 1\<close>.\<close>

definition advance :: "bool \<Rightarrow> char \<Rightarrow> state \<Rightarrow> error + state" where
  "advance debug cmd st =
     (if debug then
        and_then (getitem (tape st) (ptr st))
          (\<lambda>v. Inr (st\<lparr>stdout := stdout st @ [Trace (ip st) cmd (ptr st) v], ip := ip st + 1\<rparr>))
      else Inr (st\<lparr>ip := ip st + 1\<rparr>))"

text \<open>
  One iteration of the loop of \<^verbatim>\<open>01_simple.py\<close>. Its \<^verbatim>\<open>match\<close> has no default arm:
  any other character does nothing and the loop goes on.
\<close>

definition step_simple :: "numpy \<Rightarrow> bool \<Rightarrow> (nat \<rightharpoonup> nat) \<Rightarrow> char \<Rightarrow> state \<Rightarrow> error + state" where
  "step_simple np debug jump_table cmd st =
     (if cmd = CHR ''>'' then
        advance debug cmd (st\<lparr>ptr := (ptr st + 1) mod tape_size\<rparr>)
      else if cmd = CHR ''<'' then
        advance debug cmd (st\<lparr>ptr := nat ((int (ptr st) - 1) mod int tape_size)\<rparr>)
      else if cmd = CHR ''+'' then
        and_then (getitem (tape st) (ptr st)) (\<lambda>v.
        and_then (setitem (tape st) (ptr st) (v + 1)) (\<lambda>t.
        advance debug cmd (st\<lparr>tape := t\<rparr>)))
      else if cmd = CHR ''-'' then
        and_then (getitem (tape st) (ptr st)) (\<lambda>v.
        and_then (setitem (tape st) (ptr st) (v - 1)) (\<lambda>t.
        advance debug cmd (st\<lparr>tape := t\<rparr>)))
      else if cmd = CHR '','' then
        and_then (read_char np (stdin st)) (\<lambda>(v, rest).
        and_then (setitem (tape st) (ptr st) v) (\<lambda>t.
        advance debug cmd (st\<lparr>tape := t, stdin := rest\<rparr>)))
      else if cmd = CHR ''.'' then
        and_then (getitem (tape st) (ptr st)) (\<lambda>v.
        advance debug cmd (st\<lparr>stdout := stdout st @ [Chr (unat v)]\<rparr>))
      else if cmd = CHR ''['' then
        and_then (getitem (tape st) (ptr st)) (\<lambda>v.
        if v = 0 then and_then (lookup jump_table (ip st)) (\<lambda>j. Inr (st\<lparr>ip := j\<rparr>))
        else advance debug cmd st)
      else if cmd = CHR '']'' then
        and_then (getitem (tape st) (ptr st)) (\<lambda>v.
        if v \<noteq> 0 then and_then (lookup jump_table (ip st)) (\<lambda>j. Inr (st\<lparr>ip := j\<rparr>))
        else advance debug cmd st)
      else advance debug cmd st)"

text \<open>
  One iteration of the loop of \<^verbatim>\<open>02_batch.py\<close>. The arm of \<^verbatim>\<open>,\<close> does not use
  \<^verbatim>\<open>count\<close>; \<^verbatim>\<open>chr(tape[ptr]) * count\<close> is empty for a count below 1.
\<close>

definition step_batch :: "numpy \<Rightarrow> bool \<Rightarrow> (nat \<rightharpoonup> nat) \<Rightarrow> char \<times> int \<Rightarrow> state \<Rightarrow> error + state" where
  "step_batch np debug jump_table instr st =
     (case instr of (cmd, count) \<Rightarrow>
      if cmd = CHR ''>'' then
        advance debug cmd (st\<lparr>ptr := nat ((int (ptr st) + count) mod int tape_size)\<rparr>)
      else if cmd = CHR ''<'' then
        advance debug cmd (st\<lparr>ptr := nat ((int (ptr st) - count) mod int tape_size)\<rparr>)
      else if cmd = CHR ''+'' then
        and_then (getitem (tape st) (ptr st)) (\<lambda>v.
        and_then (as_uint8 np count) (\<lambda>n.
        and_then (setitem (tape st) (ptr st) (v + n)) (\<lambda>t.
        advance debug cmd (st\<lparr>tape := t\<rparr>))))
      else if cmd = CHR ''-'' then
        and_then (getitem (tape st) (ptr st)) (\<lambda>v.
        and_then (as_uint8 np count) (\<lambda>n.
        and_then (setitem (tape st) (ptr st) (v - n)) (\<lambda>t.
        advance debug cmd (st\<lparr>tape := t\<rparr>))))
      else if cmd = CHR '','' then
        and_then (read_char np (stdin st)) (\<lambda>(v, rest).
        and_then (setitem (tape st) (ptr st) v) (\<lambda>t.
        advance debug cmd (st\<lparr>tape := t, stdin := rest\<rparr>)))
      else if cmd = CHR ''.'' then
        and_then (getitem (tape st) (ptr st)) (\<lambda>v.
        advance debug cmd (st\<lparr>stdout := stdout st @ replicate (nat count) (Chr (unat v))\<rparr>))
      else if cmd = CHR ''['' then
        and_then (getitem (tape st) (ptr st)) (\<lambda>v.
        if v = 0 then and_then (lookup jump_table (ip st)) (\<lambda>j. Inr (st\<lparr>ip := j\<rparr>))
        else advance debug cmd st)
      else if cmd = CHR '']'' then
        and_then (getitem (tape st) (ptr st)) (\<lambda>v.
        if v \<noteq> 0 then and_then (lookup jump_table (ip st)) (\<lambda>j. Inr (st\<lparr>ip := j\<rparr>))
        else advance debug cmd st)
      else Inl (RuntimeError cmd))"

text \<open>
  The \<^verbatim>\<open>while\<close> loop, which need not end: \<open>fuel\<close> bounds the number of iterations and
  \<open>None\<close> says that it ran out. A result \<open>(None, st)\<close> is the state when \<^verbatim>\<open>ip\<close>
  reached the end of the program; \<open>(Some e, st)\<close> is the exception \<open>e\<close>, raised by the
  iteration that started in state \<open>st\<close>.
\<close>

fun loop_simple :: "nat \<Rightarrow> numpy \<Rightarrow> bool \<Rightarrow> (nat \<rightharpoonup> nat) \<Rightarrow> string \<Rightarrow> state \<Rightarrow> (error option \<times> state) option" where
  "loop_simple fuel np debug jump_table code st =
     (if ip st < length code then
        (case fuel of
           0 \<Rightarrow> None
         | Suc k \<Rightarrow>
             (case step_simple np debug jump_table (code ! ip st) st of
                Inl e \<Rightarrow> Some (Some e, st)
              | Inr st' \<Rightarrow> loop_simple k np debug jump_table code st'))
      else Some (None, st))"

fun loop_batch :: "nat \<Rightarrow> numpy \<Rightarrow> bool \<Rightarrow> (nat \<rightharpoonup> nat) \<Rightarrow> (char \<times> int) list \<Rightarrow> state \<Rightarrow> (error option \<times> state) option" where
  "loop_batch fuel np debug jump_table ops st =
     (if ip st < length ops then
        (case fuel of
           0 \<Rightarrow> None
         | Suc k \<Rightarrow>
             (case step_batch np debug jump_table (ops ! ip st) st of
                Inl e \<Rightarrow> Some (Some e, st)
              | Inr st' \<Rightarrow> loop_batch k np debug jump_table ops st'))
      else Some (None, st))"

text \<open>
  \<^verbatim>\<open>run\<close> up to the end of its loop: the tape and the pointers are set up, the jump
  table is built, and only then does the loop start. After the loop both files print one
  newline when the environment variable \<^verbatim>\<open>SHELL\<close> contains \<^verbatim>\<open>zsh\<close>; that is
  \<open>shell_epilogue\<close>, kept apart from the interpreter proper.
\<close>

definition run_simple :: "nat \<Rightarrow> numpy \<Rightarrow> bool \<Rightarrow> string \<Rightarrow> nat list list \<Rightarrow> (error option \<times> state) option" where
  "run_simple fuel np debug code inp =
     (case build_jump_table code of
        Inl e \<Rightarrow> Some (Some e, initial inp)
      | Inr jump_table \<Rightarrow> loop_simple fuel np debug jump_table code (initial inp))"

definition run_batch :: "nat \<Rightarrow> numpy \<Rightarrow> bool \<Rightarrow> (char \<times> int) list \<Rightarrow> nat list list \<Rightarrow> (error option \<times> state) option" where
  "run_batch fuel np debug ops inp =
     (case build_jump_table_batch ops of
        Inl e \<Rightarrow> Some (Some e, initial inp)
      | Inr jump_table \<Rightarrow> loop_batch fuel np debug jump_table ops (initial inp))"

definition shell_epilogue :: "bool \<Rightarrow> (error option \<times> state) \<Rightarrow> (error option \<times> state)" where
  "shell_epilogue zsh r =
     (case r of
        (None, st) \<Rightarrow> if zsh then (None, st\<lparr>stdout := stdout st @ [Chr 10]\<rparr>) else r
      | (Some e, st) \<Rightarrow> r)"

subsection \<open>Notions used to state the properties\<close>



text \<open>The indices of the brackets of an instruction sequence.\<close>

definition bracket_positions :: "string \<Rightarrow> nat set" where
  "bracket_positions code =
     set (filter (\<lambda>i. code ! i = CHR ''['' \<or> code ! i = CHR '']'') [0..<length code])"

text \<open>The tape has its 30000 cells, the pointer is inside it, every cell is a byte.\<close>

definition in_bounds :: "state \<Rightarrow> bool" where
  "in_bounds st \<longleftrightarrow>
     ptr st < tape_size \<and> length (tape st) = tape_size \<and> list_all (\<lambda>v. unat v < 256) (tape st)"

text \<open>
  The indices of the instructions that the first \<open>fuel\<close> iterations of the loop of
  \<^verbatim>\<open>02_batch.py\<close> dispatch, in order: the values of \<^verbatim>\<open>ip\<close> at
  \<^verbatim>\<open>cmd, count = ops[ip]\<close>.
\<close>

fun dispatched_batch :: "nat \<Rightarrow> numpy \<Rightarrow> bool \<Rightarrow> (nat \<rightharpoonup> nat) \<Rightarrow> (char \<times> int) list \<Rightarrow> state \<Rightarrow> nat list" where
  "dispatched_batch fuel np debug jump_table ops st =
     (if ip st < length ops then
        (case fuel of
           0 \<Rightarrow> []
         | Suc k \<Rightarrow>
             ip st #
             (case step_batch np debug jump_table (ops ! ip st) st of
                Inl e \<Rightarrow> []
              | Inr st' \<Rightarrow> dispatched_batch k np debug jump_table ops st'))
      else [])"

text \<open>The same for the loop of \<^verbatim>\<open>01_simple.py\<close>, whose instructions are characters.\<close>

fun dispatched_simple :: "nat \<Rightarrow> numpy \<Rightarrow> bool \<Rightarrow> (nat \<rightharpoonup> nat) \<Rightarrow> string \<Rightarrow> state \<Rightarrow> nat list" where
  "dispatched_simple fuel np debug jump_table code st =
     (if ip st < length code then
        (case fuel of
           0 \<Rightarrow> []
         | Suc k \<Rightarrow>
             ip st #
             (case step_simple np debug jump_table (code ! ip st) st of
                Inl e \<Rightarrow> []
              | Inr st' \<Rightarrow> dispatched_simple k np debug jump_table code st'))
      else [])"



text \<open>A state with the debug lines taken out of its standard output.\<close>

definition untraced :: "state \<Rightarrow> state" where
  "untraced st =
     st\<lparr>stdout := filter (\<lambda>ev. case ev of Chr n \<Rightarrow> True | Trace i c p v \<Rightarrow> False) (stdout st)\<rparr>"

section \<open>Properties\<close>

subsection \<open>Unfolding the loops\<close>

declare loop_simple.simps [simp del] loop_batch.simps [simp del]
  dispatched_batch.simps [simp del] dispatched_simple.simps [simp del]

lemmas eval_defs = run_simple_def run_batch_def build_jump_table_def build_jump_table_batch_def
  parse_code_simple_def parse_code_batch_def is_op_def and_then_def getitem_def setitem_def
  lookup_def read_char_def as_uint8_def advance_def step_simple_def step_batch_def initial_def
  tape_size_def loop_simple.simps loop_batch.simps

lemma loop_simple_0:
  "loop_simple 0 np debug jt code st = (if ip st < length code then None else Some (None, st))"
  by (simp add: loop_simple.simps)

lemma loop_simple_Suc:
  "loop_simple (Suc k) np debug jt code st =
     (if ip st < length code then
        (case step_simple np debug jt (code ! ip st) st of
           Inl e \<Rightarrow> Some (Some e, st)
         | Inr st' \<Rightarrow> loop_simple k np debug jt code st')
      else Some (None, st))"
  by (simp add: loop_simple.simps)

lemma loop_batch_0:
  "loop_batch 0 np debug jt ops st = (if ip st < length ops then None else Some (None, st))"
  by (simp add: loop_batch.simps)

lemma loop_batch_Suc:
  "loop_batch (Suc k) np debug jt ops st =
     (if ip st < length ops then
        (case step_batch np debug jt (ops ! ip st) st of
           Inl e \<Rightarrow> Some (Some e, st)
         | Inr st' \<Rightarrow> loop_batch k np debug jt ops st')
      else Some (None, st))"
  by (simp add: loop_batch.simps)

text \<open>A run that ended within \<open>n\<close> iterations ends the same way with more fuel.\<close>

lemma loop_simple_more:
  "loop_simple n np debug jt code st = Some r \<Longrightarrow> loop_simple (n + k) np debug jt code st = Some r"
proof (induction n arbitrary: st)
  case 0
  then show ?case by (cases k) (simp_all add: loop_simple_0 loop_simple_Suc split: if_splits)
next
  case (Suc n)
  then show ?case by (simp add: loop_simple_Suc split: if_splits sum.splits)
qed

lemma loop_batch_more:
  "loop_batch n np debug jt ops st = Some r \<Longrightarrow> loop_batch (n + k) np debug jt ops st = Some r"
proof (induction n arbitrary: st)
  case 0
  then show ?case by (cases k) (simp_all add: loop_batch_0 loop_batch_Suc split: if_splits)
next
  case (Suc n)
  then show ?case by (simp add: loop_batch_Suc split: if_splits sum.splits)
qed

lemma run_simple_more:
  "run_simple n np debug code inp = Some r \<Longrightarrow> run_simple (n + k) np debug code inp = Some r"
  by (simp add: run_simple_def loop_simple_more split: sum.splits)

lemma run_batch_more:
  "run_batch n np debug ops inp = Some r \<Longrightarrow> run_batch (n + k) np debug ops inp = Some r"
  by (simp add: run_batch_def loop_batch_more split: sum.splits)

text \<open>The newline after the loop is printed under \<^verbatim>\<open>zsh\<close> only, and only after a run
  that raised nothing.\<close>

lemma shell_epilogue_newline:
  "shell_epilogue False r = r"
  "shell_epilogue True (None, st) = (None, st\<lparr>stdout := stdout st @ [Chr 10]\<rparr>)"
  "shell_epilogue zsh (Some e, st) = (Some e, st)"
  by (simp_all add: shell_epilogue_def split: prod.splits option.splits)

subsection \<open>Direct mode against run-length mode\<close>

text \<open>
  Claim C1: for every program and every input, the direct interpreter and the run-length
  interpreter on the encoded program write the same output.

  The code does not do this, in two ways. The program \<^verbatim>\<open>,,.\<close> with the input lines
  \<^verbatim>\<open>A\<close> and \<^verbatim>\<open>B\<close> prints \<^verbatim>\<open>B\<close> in direct mode and \<^verbatim>\<open>A\<close> in run-length mode,
  whose \<^verbatim>\<open>,\<close> reads once whatever its count. The balanced program \<^verbatim>\<open>+.[[-]>]\<close>
  prints the character 1 in direct mode (any fuel from 8 on); in run-length mode the two
  \<^verbatim>\<open>[\<close> are one instruction, the jump table finds an unmatched \<^verbatim>\<open>]\<close> at index 6
  and nothing is printed.
\<close>

theorem direct_and_run_length_outputs_differ:
  "run_simple (3 + k) np False (parse_code_simple '',,.'') [[65], [66]] =
       Some (None, \<lparr>ip = 3, ptr = 0, tape = (replicate tape_size 0)[0 := 66],
                    stdin = [], stdout = [Chr 66]\<rparr>)
   \<and> run_batch (2 + k) np False (parse_code_batch '',,.'') [[65], [66]] =
       Some (None, \<lparr>ip = 2, ptr = 0, tape = (replicate tape_size 0)[0 := 65],
                    stdin = [[66]], stdout = [Chr 65]\<rparr>)
   \<and> run_simple (8 + k) np False (parse_code_simple ''+.[[-]>]'') inp =
       Some (None, \<lparr>ip = 8, ptr = 1, tape = replicate tape_size 0,
                    stdin = inp, stdout = [Chr 1]\<rparr>)
   \<and> run_batch k np False (parse_code_batch ''+.[[-]>]'') inp =
       Some (Some (UnmatchedCloseBracket 6), initial inp)"
proof (intro conjI)
  show "run_simple (3 + k) np False (parse_code_simple '',,.'') [[65], [66]] =
       Some (None, \<lparr>ip = 3, ptr = 0, tape = (replicate tape_size 0)[0 := 66],
                    stdin = [], stdout = [Chr 66]\<rparr>)"
    by (rule run_simple_more) (simp add: eval_defs)
  show "run_batch (2 + k) np False (parse_code_batch '',,.'') [[65], [66]] =
       Some (None, \<lparr>ip = 2, ptr = 0, tape = (replicate tape_size 0)[0 := 65],
                    stdin = [[66]], stdout = [Chr 65]\<rparr>)"
    by (rule run_batch_more) (simp add: eval_defs)
  show "run_simple (8 + k) np False (parse_code_simple ''+.[[-]>]'') inp =
       Some (None, \<lparr>ip = 8, ptr = 1, tape = replicate tape_size 0,
                    stdin = inp, stdout = [Chr 1]\<rparr>)"
    by (rule run_simple_more) (simp add: eval_defs list_eq_iff_nth_eq nth_list_update)
  show "run_batch k np False (parse_code_batch ''+.[[-]>]'') inp =
       Some (Some (UnmatchedCloseBracket 6), initial inp)"
    by (simp add: run_batch_def build_jump_table_batch_def build_jump_table_def
        parse_code_batch_def is_op_def and_then_def)
qed

subsection \<open>The run-length encoder and brackets\<close>

text \<open>
  Claim C2: the run-length encoder gives every \<^verbatim>\<open>[\<close> and every \<^verbatim>\<open>]\<close> the count 1
  and never merges consecutive brackets.

  \<^verbatim>\<open>parse_code\<close> of \<^verbatim>\<open>02_batch.py\<close> treats the brackets like the other six operators:
  \<^verbatim>\<open>[[]]\<close> becomes two instructions of count 2. On the balanced program
  \<^verbatim>\<open>+[[-]>]\<close> the merged sequence has one \<^verbatim>\<open>[\<close> and two \<^verbatim>\<open>]\<close>, so its jump table
  fails, where the direct interpreter pairs 1 with 6 and 2 with 4. The unbalanced text
  \<^verbatim>\<open>[[]\<close> becomes one \<^verbatim>\<open>[\<close> and one \<^verbatim>\<open>]\<close>, for which a jump table is built.
\<close>

theorem encoder_merges_brackets:
  "parse_code_batch ''[[]]'' = [(CHR ''['', 2), (CHR '']'', 2)]
   \<and> parse_code_batch ''+[[-]>]'' =
       [(CHR ''+'', 1), (CHR ''['', 2), (CHR ''-'', 1), (CHR '']'', 1), (CHR ''>'', 1), (CHR '']'', 1)]
   \<and> build_jump_table_batch (parse_code_batch ''+[[-]>]'') = Inl (UnmatchedCloseBracket 5)
   \<and> build_jump_table_batch (parse_code_batch ''[[]'') = Inr [0 \<mapsto> 1, 1 \<mapsto> 0]
   \<and> build_jump_table (parse_code_simple ''+[[-]>]'') = Inr [2 \<mapsto> 4, 4 \<mapsto> 2, 1 \<mapsto> 6, 6 \<mapsto> 1]"
  by (simp add: eval_defs eval_nat_numeral)

subsection \<open>Reading input in run-length mode\<close>

text \<open>
  Claim C3: in run-length mode a \<^verbatim>\<open>,\<close> of count \<open>n\<close> reads \<open>n\<close> times and leaves in
  the cell the first character of the last read.

  The arm of \<^verbatim>\<open>,\<close> in \<^verbatim>\<open>02_batch.py\<close> does not mention \<^verbatim>\<open>count\<close>: whatever the
  count, the step is the step of count 1. On \<^verbatim>\<open>,,\<close> with the input lines \<^verbatim>\<open>A\<close> and
  \<^verbatim>\<open>B\<close> it reads one line, leaves 65 in the cell and \<^verbatim>\<open>B\<close> unread; the direct
  interpreter reads both and leaves 66.
\<close>

theorem comma_count_ignored:
  "step_batch np debug jt (CHR '','', count) st = step_batch np debug jt (CHR '','', 1) st
   \<and> run_batch (1 + k) np False (parse_code_batch '',,'') [[65], [66]] =
       Some (None, \<lparr>ip = 1, ptr = 0, tape = (replicate tape_size 0)[0 := 65],
                    stdin = [[66]], stdout = []\<rparr>)
   \<and> run_simple (2 + k) np False (parse_code_simple '',,'') [[65], [66]] =
       Some (None, \<lparr>ip = 2, ptr = 0, tape = (replicate tape_size 0)[0 := 66],
                    stdin = [], stdout = []\<rparr>)"
proof (intro conjI)
  show "step_batch np debug jt (CHR '','', count) st = step_batch np debug jt (CHR '','', 1) st"
    by (simp add: step_batch_def)
  show "run_batch (1 + k) np False (parse_code_batch '',,'') [[65], [66]] =
       Some (None, \<lparr>ip = 1, ptr = 0, tape = (replicate tape_size 0)[0 := 65],
                    stdin = [[66]], stdout = []\<rparr>)"
    by (rule run_batch_more) (simp add: eval_defs)
  show "run_simple (2 + k) np False (parse_code_simple '',,'') [[65], [66]] =
       Some (None, \<lparr>ip = 2, ptr = 0, tape = (replicate tape_size 0)[0 := 66],
                    stdin = [], stdout = []\<rparr>)"
    by (rule run_simple_more) (simp add: eval_defs)
qed

subsection \<open>An end-to-end run\<close>


subsection \<open>The jump table pairs the brackets\<close>

lemma bracket_positions_set:
  "bracket_positions code = {k. k < length code \<and> (code ! k = CHR ''['' \<or> code ! k = CHR '']'')}"
  by (auto simp: bracket_positions_def)

lemma bracket_positions_Nil: "bracket_positions [] = {}"
  by (simp add: bracket_positions_set)

lemma bracket_positions_Cons:
  "bracket_positions (c # cs) =
     (if c = CHR ''['' \<or> c = CHR '']'' then {0} else {}) \<union> Suc ` bracket_positions cs"
proof -
  have "k \<in> bracket_positions (c # cs) \<longleftrightarrow>
        k \<in> (if c = CHR ''['' \<or> c = CHR '']'' then {0} else {}) \<union> Suc ` bracket_positions cs" for k
    by (cases k) (auto simp: bracket_positions_set)
  then show ?thesis by blast
qed

lemma bracket_positions_shift:
  "(+) i ` bracket_positions (c # cs) =
     (if c = CHR ''['' \<or> c = CHR '']'' then {i} else {}) \<union> (+) (Suc i) ` bracket_positions cs"
proof -
  have "(+) i ` Suc ` bracket_positions cs = (+) (Suc i) ` bracket_positions cs"
    by (simp add: image_image)
  then show ?thesis
    by (simp add: bracket_positions_Cons image_Un)
qed

lemma scan_pairs:
  assumes "scan i cs table stack = Inr (t, s)"
    and "\<forall>a b. table a = Some b \<longrightarrow> table b = Some a"
    and "dom table \<inter> set stack = {}"
    and "distinct stack"
    and "\<forall>a \<in> dom table \<union> set stack. a < i"
  shows "(\<forall>a b. t a = Some b \<longrightarrow> t b = Some a) \<and> dom t \<inter> set s = {} \<and>
         dom t \<union> set s = dom table \<union> set stack \<union> (+) i ` bracket_positions cs"
  using assms
proof (induction cs arbitrary: i table stack)
  case Nil
  from Nil.prems(1) have "t = table" "s = stack" by simp_all
  moreover have "(+) i ` bracket_positions [] = {}" by (simp add: bracket_positions_Nil)
  ultimately show ?case using Nil.prems(2,3) by blast
next
  case (Cons c cs)
  have lt: "a < i" if "a \<in> dom table \<union> set stack" for a
    using Cons.prems(5) that by blast
  show ?case
  proof (cases "c = CHR ''[''")
    case True
    with Cons.prems(1) have run: "scan (Suc i) cs table (i # stack) = Inr (t, s)" by simp
    have fresh: "i \<notin> dom table" "i \<notin> set stack" using lt [of i] by auto
    have "(\<forall>a b. t a = Some b \<longrightarrow> t b = Some a) \<and> dom t \<inter> set s = {} \<and>
         dom t \<union> set s = dom table \<union> set (i # stack) \<union> (+) (Suc i) ` bracket_positions cs"
    proof (rule Cons.IH [OF run])
      show "\<forall>a b. table a = Some b \<longrightarrow> table b = Some a" by (rule Cons.prems(2))
      show "dom table \<inter> set (i # stack) = {}" using Cons.prems(3) fresh by auto
      show "distinct (i # stack)" using Cons.prems(4) fresh by simp
      show "\<forall>a\<in>dom table \<union> set (i # stack). a < Suc i" by (auto intro!: less_SucI lt)
    qed
    then have A: "\<forall>a b. t a = Some b \<longrightarrow> t b = Some a" and B: "dom t \<inter> set s = {}"
      and C: "dom t \<union> set s = dom table \<union> set (i # stack) \<union> (+) (Suc i) ` bracket_positions cs"
      by (rule conjunct1, rule conjunct2 [THEN conjunct1], rule conjunct2 [THEN conjunct2])
    have E: "(+) i ` bracket_positions (c # cs) = {i} \<union> (+) (Suc i) ` bracket_positions cs"
      using True by (simp only: bracket_positions_shift if_True simp_thms)
    have "dom t \<union> set s = dom table \<union> set stack \<union> (+) i ` bracket_positions (c # cs)"
      unfolding C E by (simp add: Un_ac)
    with A B show ?thesis by (intro conjI)
  next
    case no_open: False
    show ?thesis
    proof (cases "c = CHR '']''")
      case True
      with no_open Cons.prems(1) obtain open_idx stack' where
        st: "stack = open_idx # stack'"
        and run: "scan (Suc i) cs (table(open_idx \<mapsto> i, i \<mapsto> open_idx)) stack' = Inr (t, s)"
        by (cases stack) auto
      let ?table = "table(open_idx \<mapsto> i, i \<mapsto> open_idx)"
      have o: "open_idx < i" "open_idx \<notin> dom table" "open_idx \<notin> set stack'" "i \<notin> dom table"
          "i \<notin> set stack'"
        using Cons.prems(3,4) st lt [of i] lt [of open_idx] by auto
      have sym: "\<forall>a b. ?table a = Some b \<longrightarrow> ?table b = Some a"
      proof (intro allI impI)
        fix a b assume ab: "?table a = Some b"
        show "?table b = Some a"
        proof (cases "a = i \<or> a = open_idx")
          case True
          then show ?thesis using ab o(1) by (auto split: if_splits)
        next
          case False
          with ab have "table a = Some b" by simp
          then have ba: "table b = Some a" using Cons.prems(2) by blast
          then have "b \<in> dom table" by blast
          then have "b \<noteq> i" "b \<noteq> open_idx" using o by auto
          then show ?thesis using ba by simp
        qed
      qed
      have dom_new: "dom ?table = dom table \<union> {open_idx, i}" by auto
      have "(\<forall>a b. t a = Some b \<longrightarrow> t b = Some a) \<and> dom t \<inter> set s = {} \<and>
         dom t \<union> set s = dom ?table \<union> set stack' \<union> (+) (Suc i) ` bracket_positions cs"
      proof (rule Cons.IH [OF run sym])
        show "dom ?table \<inter> set stack' = {}" using Cons.prems(3) st o unfolding dom_new by auto
        show "distinct stack'" using Cons.prems(4) st by simp
        show "\<forall>a\<in>dom ?table \<union> set stack'. a < Suc i" using st unfolding dom_new by (auto intro!: less_SucI lt)
      qed
      then have A: "\<forall>a b. t a = Some b \<longrightarrow> t b = Some a" and B: "dom t \<inter> set s = {}"
        and C: "dom t \<union> set s = dom ?table \<union> set stack' \<union> (+) (Suc i) ` bracket_positions cs"
        by (rule conjunct1, rule conjunct2 [THEN conjunct1], rule conjunct2 [THEN conjunct2])
      have E: "(+) i ` bracket_positions (c # cs) = {i} \<union> (+) (Suc i) ` bracket_positions cs"
        using True by (simp only: bracket_positions_shift if_True simp_thms)
      have "dom t \<union> set s = dom table \<union> set stack \<union> (+) i ` bracket_positions (c # cs)"
        unfolding C E dom_new st by (simp add: Un_ac insert_commute)
      with A B show ?thesis by (intro conjI)
    next
      case False
      with no_open Cons.prems(1) have run: "scan (Suc i) cs table stack = Inr (t, s)" by simp
      have "(\<forall>a b. t a = Some b \<longrightarrow> t b = Some a) \<and> dom t \<inter> set s = {} \<and>
         dom t \<union> set s = dom table \<union> set stack \<union> (+) (Suc i) ` bracket_positions cs"
      proof (rule Cons.IH [OF run Cons.prems(2,3,4)])
        show "\<forall>a\<in>dom table \<union> set stack. a < Suc i" by (auto intro!: less_SucI lt)
      qed
      then have A: "\<forall>a b. t a = Some b \<longrightarrow> t b = Some a" and B: "dom t \<inter> set s = {}"
        and C: "dom t \<union> set s = dom table \<union> set stack \<union> (+) (Suc i) ` bracket_positions cs"
        by (rule conjunct1, rule conjunct2 [THEN conjunct1], rule conjunct2 [THEN conjunct2])
      have E: "(+) i ` bracket_positions (c # cs) = (+) (Suc i) ` bracket_positions cs"
        using False no_open by (simp only: bracket_positions_shift if_False simp_thms Un_empty_left)
      have "dom t \<union> set s = dom table \<union> set stack \<union> (+) i ` bracket_positions (c # cs)"
        unfolding C E by (rule refl)
      with A B show ?thesis by (intro conjI)
    qed
  qed
qed


lemma build_jump_table_scan:
  "build_jump_table code = Inr table \<longleftrightarrow> scan 0 code Map.empty [] = Inr (table, [])"
  by (auto simp: build_jump_table_def and_then_def split: sum.splits list.splits)

lemma build_jump_table_pairs:
  assumes "build_jump_table code = Inr table"
  shows "(\<forall>i j. table i = Some j \<longrightarrow> table j = Some i) \<and> dom table = bracket_positions code"
proof -
  from assms have run: "scan 0 code Map.empty [] = Inr (table, [])"
    by (simp add: build_jump_table_scan)
  have all: "(\<forall>a b. table a = Some b \<longrightarrow> table b = Some a) \<and> dom table \<inter> set [] = {} \<and>
      dom table \<union> set [] = dom (Map.empty :: nat \<rightharpoonup> nat) \<union> set [] \<union> (+) 0 ` bracket_positions code"
    by (rule scan_pairs [OF run]) simp_all
  have "dom table = bracket_positions code"
    using all [THEN conjunct2, THEN conjunct2] by simp
  with all [THEN conjunct1] show ?thesis by (rule conjI)
qed

text \<open>
  Claim C7: when the construction of the jump table succeeds, the table is symmetric
  (\<^verbatim>\<open>table[table[i]] == i\<close> for every index \<open>i\<close> in it) and its indices are
  exactly the positions of the brackets of the instruction sequence.

  Proved for \<^verbatim>\<open>build_jump_table\<close> of \<^verbatim>\<open>01_simple.py\<close> and of \<^verbatim>\<open>02_batch.py\<close>,
  by the invariant \<open>scan_pairs\<close> of the scan: the table is symmetric, no index is both
  in the table and on the stack, and together they hold the brackets read so far.
\<close>

theorem jump_table_symmetric:
  "(build_jump_table code = Inr table \<longrightarrow>
      (\<forall>i j. table i = Some j \<longrightarrow> table j = Some i) \<and> dom table = bracket_positions code)
   \<and> (build_jump_table_batch ops = Inr table' \<longrightarrow>
      (\<forall>i j. table' i = Some j \<longrightarrow> table' j = Some i) \<and> dom table' = bracket_positions (map fst ops))"
proof (rule conjI)
  show "build_jump_table code = Inr table \<longrightarrow>
      (\<forall>i j. table i = Some j \<longrightarrow> table j = Some i) \<and> dom table = bracket_positions code"
    by (rule impI) (rule build_jump_table_pairs)
  show "build_jump_table_batch ops = Inr table' \<longrightarrow>
      (\<forall>i j. table' i = Some j \<longrightarrow> table' j = Some i) \<and> dom table' = bracket_positions (map fst ops)"
    unfolding build_jump_table_batch_def by (rule impI) (rule build_jump_table_pairs)
qed

theorem jump_table_symmetric_witness:
  "build_jump_table ''+[[-]>]'' = Inr [2 \<mapsto> 4, 4 \<mapsto> 2, 1 \<mapsto> 6, 6 \<mapsto> 1]
   \<and> [2 \<mapsto> 4, 4 \<mapsto> 2, 1 \<mapsto> 6, 6 \<mapsto> (1::nat)] (6::nat) = Some 1
   \<and> dom [2 \<mapsto> 4, 4 \<mapsto> 2, 1 \<mapsto> 6, 6 \<mapsto> (1::nat)] = bracket_positions ''+[[-]>]''
   \<and> build_jump_table_batch [(CHR ''['', 1), (CHR ''+'', 3), (CHR '']'', 1)] = Inr [0 \<mapsto> 2, 2 \<mapsto> 0]
   \<and> [0 \<mapsto> 2, 2 \<mapsto> (0::nat)] (2::nat) = Some 0
   \<and> dom [0 \<mapsto> 2, 2 \<mapsto> (0::nat)] =
       bracket_positions (map fst [(CHR ''['', 1::int), (CHR ''+'', 3), (CHR '']'', 1)])"
proof -
  let ?t = "[2 \<mapsto> 4, 4 \<mapsto> 2, 1 \<mapsto> 6, 6 \<mapsto> (1::nat)] :: nat \<rightharpoonup> nat"
  let ?u = "[0 \<mapsto> 2, 2 \<mapsto> (0::nat)] :: nat \<rightharpoonup> nat"
  let ?ops = "[(CHR ''['', 1::int), (CHR ''+'', 3), (CHR '']'', 1)]"
  note T = jump_table_symmetric [of "''+[[-]>]''" ?t ?ops ?u]
  have a: "build_jump_table ''+[[-]>]'' = Inr ?t"
    by (simp add: build_jump_table_def and_then_def eval_nat_numeral)
  have b: "build_jump_table_batch ?ops = Inr ?u"
    by (simp add: build_jump_table_batch_def build_jump_table_def and_then_def eval_nat_numeral)
  note Ta = T [THEN conjunct1, THEN mp, OF a] and Tb = T [THEN conjunct2, THEN mp, OF b]
  have c: "?t 1 = Some 6" by simp
  have d: "?u 0 = Some 2" by simp
  have c': "?t 6 = Some 1" by (rule Ta [THEN conjunct1, THEN spec, THEN spec, THEN mp, OF c])
  have d': "?u 2 = Some 0" by (rule Tb [THEN conjunct1, THEN spec, THEN spec, THEN mp, OF d])
  show ?thesis
    by (intro conjI) (rule a, rule c', rule Ta [THEN conjunct2], rule b, rule d', rule Tb [THEN conjunct2])
qed

subsection \<open>Unbalanced brackets\<close>






subsection \<open>The tape pointer and the cells stay in range\<close>

lemma cells_are_bytes: "list_all (\<lambda>v. unat v < 256) (t :: cell list)"
proof -
  have "unat v < 256" for v :: cell
    using unsigned_less [of v, where ?'a = nat] by simp
  then show ?thesis by (simp add: list_all_iff)
qed

lemma in_bounds_iff: "in_bounds st \<longleftrightarrow> ptr st < tape_size \<and> length (tape st) = tape_size"
  by (simp add: in_bounds_def cells_are_bytes)

lemma ptr_wraps: "nat (x mod int tape_size) < tape_size"
  by (simp add: tape_size_def)

lemma in_bounds_initial: "in_bounds (initial inp)"
  by (simp add: in_bounds_iff initial_def tape_size_def)

lemma advance_fields:
  assumes "advance debug cmd st = Inr st'"
  shows "ptr st' = ptr st" and "tape st' = tape st" and "ip st' = Suc (ip st)"
    and "stdin st' = stdin st"
  using assms
  by (auto simp: advance_def and_then_def getitem_def split: if_splits)

lemma advance_in_bounds: "advance debug cmd st = Inr st' \<Longrightarrow> in_bounds st \<Longrightarrow> in_bounds st'"
  by (simp add: in_bounds_iff advance_fields)

lemma step_simple_in_bounds:
  assumes "step_simple np debug jt cmd st = Inr st'" and "in_bounds st"
  shows "in_bounds st'"
proof -
  have upd: "in_bounds (st\<lparr>tape := (tape st)[p := v]\<rparr>)" for p v
    using assms(2) by (simp add: in_bounds_iff)
  have upd': "in_bounds (st\<lparr>tape := (tape st)[p := v], stdin := r\<rparr>)" for p v r
    using assms(2) by (simp add: in_bounds_iff)
  have out: "in_bounds (st\<lparr>stdout := x\<rparr>)" for x
    using assms(2) by (simp add: in_bounds_iff)
  have mv: "in_bounds (st\<lparr>ptr := Suc (ptr st) mod tape_size\<rparr>)"
      "in_bounds (st\<lparr>ptr := nat ((int (ptr st) - 1) mod int tape_size)\<rparr>)"
    using assms(2) by (simp_all add: in_bounds_iff ptr_wraps)
  have jmp: "in_bounds (st\<lparr>ip := j\<rparr>)" for j
    using assms(2) by (simp add: in_bounds_iff)
  show ?thesis
    using assms(1)
    by (auto simp: step_simple_def and_then_def getitem_def setitem_def lookup_def
        split: if_splits sum.splits prod.splits option.splits
        intro: advance_in_bounds upd upd' out mv jmp assms(2))
qed

lemma step_batch_in_bounds:
  assumes "step_batch np debug jt instr st = Inr st'" and "in_bounds st"
  shows "in_bounds st'"
proof -
  obtain cmd count where instr: "instr = (cmd, count)" by (cases instr)
  have upd: "in_bounds (st\<lparr>tape := (tape st)[p := v]\<rparr>)" for p v
    using assms(2) by (simp add: in_bounds_iff)
  have upd': "in_bounds (st\<lparr>tape := (tape st)[p := v], stdin := r\<rparr>)" for p v r
    using assms(2) by (simp add: in_bounds_iff)
  have out: "in_bounds (st\<lparr>stdout := x\<rparr>)" for x
    using assms(2) by (simp add: in_bounds_iff)
  have mv: "in_bounds (st\<lparr>ptr := nat ((int (ptr st) + count) mod int tape_size)\<rparr>)"
      "in_bounds (st\<lparr>ptr := nat ((int (ptr st) - count) mod int tape_size)\<rparr>)"
    using assms(2) by (simp_all add: in_bounds_iff ptr_wraps)
  have jmp: "in_bounds (st\<lparr>ip := j\<rparr>)" for j
    using assms(2) by (simp add: in_bounds_iff)
  show ?thesis
    using assms(1) unfolding instr
    by (auto simp: step_batch_def and_then_def getitem_def setitem_def lookup_def
        split: if_splits sum.splits prod.splits option.splits
        intro: advance_in_bounds upd upd' out mv jmp assms(2))
qed

lemma loop_simple_in_bounds:
  "loop_simple fuel np debug jt code st = Some (e, st') \<Longrightarrow> in_bounds st \<Longrightarrow> in_bounds st'"
proof (induction fuel arbitrary: st)
  case 0
  then show ?case by (simp add: loop_simple_0 split: if_splits)
next
  case (Suc fuel)
  show ?case
  proof (cases "ip st < length code")
    case False
    with Suc.prems show ?thesis by (simp add: loop_simple_Suc)
  next
    case True
    show ?thesis
    proof (cases "step_simple np debug jt (code ! ip st) st")
      case (Inl err)
      with True Suc.prems show ?thesis by (simp add: loop_simple_Suc)
    next
      case (Inr nxt)
      with True Suc.prems have "loop_simple fuel np debug jt code nxt = Some (e, st')"
        by (simp add: loop_simple_Suc)
      moreover have "in_bounds nxt" using Inr Suc.prems(2) by (rule step_simple_in_bounds)
      ultimately show ?thesis by (rule Suc.IH)
    qed
  qed
qed

lemma loop_batch_in_bounds:
  "loop_batch fuel np debug jt ops st = Some (e, st') \<Longrightarrow> in_bounds st \<Longrightarrow> in_bounds st'"
proof (induction fuel arbitrary: st)
  case 0
  then show ?case by (simp add: loop_batch_0 split: if_splits)
next
  case (Suc fuel)
  show ?case
  proof (cases "ip st < length ops")
    case False
    with Suc.prems show ?thesis by (simp add: loop_batch_Suc)
  next
    case True
    show ?thesis
    proof (cases "step_batch np debug jt (ops ! ip st) st")
      case (Inl err)
      with True Suc.prems show ?thesis by (simp add: loop_batch_Suc)
    next
      case (Inr nxt)
      with True Suc.prems have "loop_batch fuel np debug jt ops nxt = Some (e, st')"
        by (simp add: loop_batch_Suc)
      moreover have "in_bounds nxt" using Inr Suc.prems(2) by (rule step_batch_in_bounds)
      ultimately show ?thesis by (rule Suc.IH)
    qed
  qed
qed

lemma run_simple_in_bounds:
  "run_simple fuel np debug code inp = Some (e, st') \<Longrightarrow> in_bounds st'"
  by (auto simp: run_simple_def in_bounds_initial split: sum.splits
      dest: loop_simple_in_bounds [OF _ in_bounds_initial])

lemma run_batch_in_bounds:
  "run_batch fuel np debug ops inp = Some (e, st') \<Longrightarrow> in_bounds st'"
  by (auto simp: run_batch_def in_bounds_initial split: sum.splits
      dest: loop_batch_in_bounds [OF _ in_bounds_initial])

lemma scan_no_brackets:
  "\<forall>c \<in> set cs. c \<noteq> CHR ''['' \<and> c \<noteq> CHR '']'' \<Longrightarrow> scan i cs table stack = Inr (table, stack)"
  by (induction cs arbitrary: i) auto

lemma build_jump_table_no_brackets:
  "\<forall>c \<in> set cs. c \<noteq> CHR ''['' \<and> c \<noteq> CHR '']'' \<Longrightarrow> build_jump_table cs = Inr Map.empty"
  by (simp add: build_jump_table_def scan_no_brackets and_then_def)

lemma advance_ok:
  assumes "ptr st < length (tape st)"
  shows "\<exists>st'. advance debug cmd st = Inr st' \<and> ip st' = Suc (ip st) \<and> ptr st' = ptr st \<and>
           tape st' = tape st \<and> stdin st' = stdin st"
  using assms by (simp add: advance_def and_then_def getitem_def)

lemma loop_simple_done:
  "\<not> ip st < length code \<Longrightarrow> loop_simple fuel np debug jt code st = Some (None, st)"
  by (simp add: loop_simple.simps)

lemma plus_run:
  assumes "ptr st < length (tape st)" and "ip st + n = length code"
    and "\<forall>j. ip st \<le> j \<and> j < length code \<longrightarrow> code ! j = CHR ''+''"
  shows "\<exists>st'. loop_simple (n + k) np debug jt code st = Some (None, st') \<and> ptr st' = ptr st \<and>
           tape st' = (tape st)[ptr st := tape st ! ptr st + of_nat n]"
  using assms
proof (induction n arbitrary: st)
  case 0
  then have "loop_simple (0 + k) np debug jt code st = Some (None, st)"
    by (simp add: loop_simple_done)
  then show ?case by simp
next
  case (Suc n)
  let ?p = "ptr st" and ?t = "tape st"
  let ?st1 = "st\<lparr>tape := ?t[?p := ?t ! ?p + 1]\<rparr>"
  from Suc.prems have here: "ip st < length code" and cmd: "code ! ip st = CHR ''+''"
    by auto
  have "ptr ?st1 < length (tape ?st1)" using Suc.prems(1) by simp
  from advance_ok [OF this, of debug "CHR ''+''"] obtain st2 where
    adv: "advance debug CHR ''+'' ?st1 = Inr st2" and ip2: "ip st2 = Suc (ip st)"
    and ptr2: "ptr st2 = ?p" and tape2: "tape st2 = ?t[?p := ?t ! ?p + 1]"
    by auto
  have step: "step_simple np debug jt (code ! ip st) st = Inr st2"
    using Suc.prems(1) adv by (simp add: cmd step_simple_def and_then_def getitem_def setitem_def)
  have "\<exists>st'. loop_simple (n + k) np debug jt code st2 = Some (None, st') \<and> ptr st' = ptr st2 \<and>
           tape st' = (tape st2)[ptr st2 := tape st2 ! ptr st2 + of_nat n]"
  proof (rule Suc.IH)
    show "ptr st2 < length (tape st2)" using Suc.prems(1) by (simp add: ptr2 tape2)
    show "ip st2 + n = length code" using Suc.prems(2) by (simp add: ip2)
    show "\<forall>j. ip st2 \<le> j \<and> j < length code \<longrightarrow> code ! j = CHR ''+''"
      using Suc.prems(3) by (simp add: ip2)
  qed
  then obtain st' where run: "loop_simple (n + k) np debug jt code st2 = Some (None, st')"
    and p': "ptr st' = ?p" and t': "tape st' = (?t[?p := ?t ! ?p + 1])[?p := (?t[?p := ?t ! ?p + 1]) ! ?p + of_nat n]"
    by (auto simp: ptr2 tape2)
  have "loop_simple (Suc n + k) np debug jt code st = Some (None, st')"
    using here step run by (simp add: loop_simple_Suc)
  moreover have "tape st' = ?t[?p := ?t ! ?p + of_nat (Suc n)]"
    using Suc.prems(1) by (simp add: t' ac_simps)
  ultimately show ?case using p' by blast
qed

lemma run_simple_plus:
  "\<exists>st'. run_simple (n + k) np debug (replicate n CHR ''+'') inp = Some (None, st') \<and> ptr st' = 0 \<and>
         tape st' = (replicate tape_size 0)[0 := of_nat n]"
proof -
  have "\<exists>st'. loop_simple (n + k) np debug Map.empty (replicate n CHR ''+'') (initial inp) =
          Some (None, st') \<and> ptr st' = ptr (initial inp) \<and>
          tape st' = (tape (initial inp))[ptr (initial inp) := tape (initial inp) ! ptr (initial inp) + of_nat n]"
    by (rule plus_run) (simp_all add: initial_def tape_size_def)
  then show ?thesis
    by (simp add: run_simple_def build_jump_table_no_brackets initial_def tape_size_def)
qed

lemma run_simple_left:
  "\<exists>st'. run_simple (1 + k) np debug ''<'' inp = Some (None, st') \<and> ptr st' = tape_size - 1"
proof -
  have "\<exists>st'. run_simple 1 np debug ''<'' inp = Some (None, st') \<and> ptr st' = tape_size - 1"
    by (cases debug) (simp_all add: eval_defs)
  then show ?thesis using run_simple_more [of 1 np debug "''<''" inp _ k] by blast
qed

text \<open>
  Claim C6: tape indexing and cell arithmetic wrap around. From \<^verbatim>\<open>ptr = 0\<close> one
  \<^verbatim>\<open><\<close> gives \<^verbatim>\<open>ptr = tape_length - 1 = 29999\<close>; 256 times \<^verbatim>\<open>+\<close> on one cell
  bring it back to 0; the pointer never leaves \<open>[0, tape_length)\<close> and the cells stay in
  \<open>[0, 256)\<close>.

  \<open>in_bounds\<close> holds in the initial state and is kept by every iteration of either loop,
  hence it holds in every state a run ends in. The program \<^verbatim>\<open><\<close> ends with the pointer
  at 29999, and \<open>n\<close> times \<^verbatim>\<open>+\<close> leave \<open>n mod 256\<close> in the first cell: the all-zero
  tape again for \<open>n = 256\<close>.
\<close>

theorem tape_wraps_around:
  "in_bounds (initial inp)
   \<and> (in_bounds st \<and> step_simple np debug jt cmd st = Inr st1 \<longrightarrow> in_bounds st1)
   \<and> (in_bounds st \<and> step_batch np debug jt instr st = Inr st2 \<longrightarrow> in_bounds st2)
   \<and> (run_simple fuel np debug code inp = Some (e, st3) \<longrightarrow> in_bounds st3)
   \<and> (run_batch fuel np debug ops inp = Some (e, st4) \<longrightarrow> in_bounds st4)
   \<and> (\<exists>s. run_simple (1 + k) np debug ''<'' inp = Some (None, s) \<and> ptr s = tape_size - 1)
   \<and> tape_size - 1 = 29999
   \<and> (\<exists>s. run_simple (n + k) np debug (replicate n CHR ''+'') inp = Some (None, s) \<and>
            ptr s = 0 \<and> unat (tape s ! 0) = n mod 256)
   \<and> (\<exists>s. run_simple (256 + k) np debug (replicate 256 CHR ''+'') inp = Some (None, s) \<and>
            tape s = replicate tape_size 0)"
proof (intro conjI)
  show "in_bounds (initial inp)" by (rule in_bounds_initial)
  show "in_bounds st \<and> step_simple np debug jt cmd st = Inr st1 \<longrightarrow> in_bounds st1"
    using step_simple_in_bounds by blast
  show "in_bounds st \<and> step_batch np debug jt instr st = Inr st2 \<longrightarrow> in_bounds st2"
    using step_batch_in_bounds by blast
  show "run_simple fuel np debug code inp = Some (e, st3) \<longrightarrow> in_bounds st3"
    using run_simple_in_bounds by blast
  show "run_batch fuel np debug ops inp = Some (e, st4) \<longrightarrow> in_bounds st4"
    using run_batch_in_bounds by blast
  show "\<exists>s. run_simple (1 + k) np debug ''<'' inp = Some (None, s) \<and> ptr s = tape_size - 1"
    by (rule run_simple_left)
  show "tape_size - 1 = 29999" by (simp add: tape_size_def)
  show "\<exists>s. run_simple (n + k) np debug (replicate n CHR ''+'') inp = Some (None, s) \<and>
            ptr s = 0 \<and> unat (tape s ! 0) = n mod 256"
  proof -
    from run_simple_plus [of n k np debug inp] obtain s where
      "run_simple (n + k) np debug (replicate n CHR ''+'') inp = Some (None, s)" "ptr s = 0"
      and t: "tape s = (replicate tape_size 0)[0 := of_nat n]"
      by blast
    moreover have "unat (tape s ! 0) = n mod 256"
      by (simp add: t tape_size_def unat_of_nat)
    ultimately show ?thesis by blast
  qed
  show "\<exists>s. run_simple (256 + k) np debug (replicate 256 CHR ''+'') inp = Some (None, s) \<and>
            tape s = replicate tape_size 0"
  proof -
    from run_simple_plus [of 256 k np debug inp] obtain s where
      "run_simple (256 + k) np debug (replicate 256 CHR ''+'') inp = Some (None, s)"
      and t: "tape s = (replicate tape_size 0)[0 := of_nat 256]"
      by blast
    moreover have "tape s = replicate tape_size 0"
      by (simp add: t tape_size_def list_eq_iff_nth_eq nth_list_update)
    ultimately show ?thesis by blast
  qed
qed

theorem tape_wraps_around_witness:
  "in_bounds (initial [])
   \<and> step_simple NumPy2 False Map.empty CHR ''<'' (initial []) = Inr ((initial [])\<lparr>ip := 1, ptr := 29999\<rparr>)
   \<and> step_batch NumPy2 False Map.empty (CHR ''<'', 1) (initial []) = Inr ((initial [])\<lparr>ip := 1, ptr := 29999\<rparr>)
   \<and> run_simple 1 NumPy2 False ''<'' [] = Some (None, (initial [])\<lparr>ip := 1, ptr := 29999\<rparr>)
   \<and> run_batch 1 NumPy2 False [(CHR ''<'', 1)] [] = Some (None, (initial [])\<lparr>ip := 1, ptr := 29999\<rparr>)
   \<and> in_bounds ((initial [])\<lparr>ip := 1, ptr := 29999\<rparr>)"
proof -
  let ?s = "(initial [])\<lparr>ip := 1, ptr := 29999\<rparr>"
  note T = tape_wraps_around [of "[]" "initial []" NumPy2 False Map.empty "CHR ''<''" ?s
      "(CHR ''<'', 1)" ?s 1 "''<''" None ?s "[(CHR ''<'', 1)]" ?s]
  have a: "step_simple NumPy2 False Map.empty CHR ''<'' (initial []) = Inr ?s"
    by (simp add: eval_defs)
  have b: "step_batch NumPy2 False Map.empty (CHR ''<'', 1) (initial []) = Inr ?s"
    by (simp add: eval_defs)
  have c: "run_simple 1 NumPy2 False ''<'' [] = Some (None, ?s)"
    by (simp add: eval_defs)
  have d: "run_batch 1 NumPy2 False [(CHR ''<'', 1)] [] = Some (None, ?s)"
    by (simp add: eval_defs)
  have i: "in_bounds (initial [])" by (rule T [THEN conjunct1])
  have "in_bounds ?s"
    by (rule T [THEN conjunct2, THEN conjunct1, THEN mp]) (rule conjI [OF i a])
  moreover have "in_bounds ?s"
    by (rule T [THEN conjunct2, THEN conjunct2, THEN conjunct1, THEN mp]) (rule conjI [OF i b])
  moreover have "in_bounds ?s"
    by (rule T [THEN conjunct2, THEN conjunct2, THEN conjunct2, THEN conjunct1, THEN mp]) (rule c)
  moreover have "in_bounds ?s"
    by (rule T [THEN conjunct2, THEN conjunct2, THEN conjunct2, THEN conjunct2, THEN conjunct1, THEN mp])
      (rule d)
  ultimately show ?thesis using i a b c d by (intro conjI)
qed

subsection \<open>The default arm of the run-length loop\<close>

lemma collapse_ops:
  assumes "\<forall>instr \<in> set ops. is_op (fst instr)" and "\<forall>c. last_op = Some c \<longrightarrow> is_op c"
  shows "\<forall>instr \<in> set (collapse raw last_op count ops). is_op (fst instr)"
  using assms
proof (induction raw arbitrary: last_op count ops)
  case Nil
  then show ?case by (auto split: option.splits)
next
  case (Cons c raw)
  show ?case
  proof (cases "is_op c")
    case False
    then show ?thesis using Cons.IH [OF Cons.prems] by simp
  next
    case True
    show ?thesis
    proof (cases "Some c = last_op")
      case same: True
      then show ?thesis using True Cons.IH [OF Cons.prems] by simp
    next
      case False
      have "\<forall>instr \<in> set (collapse raw (Some c) 1
               (case last_op of None \<Rightarrow> ops | Some c0 \<Rightarrow> ops @ [(c0, count)])). is_op (fst instr)"
      proof (rule Cons.IH)
        show "\<forall>instr\<in>set (case last_op of None \<Rightarrow> ops | Some c0 \<Rightarrow> ops @ [(c0, count)]).
                 is_op (fst instr)"
          using Cons.prems by (auto split: option.splits)
        show "\<forall>c'. Some c = Some c' \<longrightarrow> is_op c'" using True by simp
      qed
      then show ?thesis using True False by simp
    qed
  qed
qed

lemma parse_code_batch_ops: "\<forall>instr \<in> set (parse_code_batch raw). is_op (fst instr)"
  unfolding parse_code_batch_def by (rule collapse_ops) simp_all

lemma advance_error: "advance debug cmd st = Inl e \<Longrightarrow> e = IndexError"
  by (auto simp: advance_def and_then_def getitem_def split: if_splits)

lemma step_batch_RuntimeError:
  assumes "step_batch np debug jt instr st = Inl (RuntimeError c)"
  shows "\<not> is_op (fst instr)"
proof
  assume op: "is_op (fst instr)"
  obtain cmd count where instr: "instr = (cmd, count)" by (cases instr)
  from op have "cmd = CHR ''+'' \<or> cmd = CHR ''-'' \<or> cmd = CHR ''<'' \<or> cmd = CHR ''>'' \<or>
      cmd = CHR ''.'' \<or> cmd = CHR '','' \<or> cmd = CHR ''['' \<or> cmd = CHR '']''"
    by (simp add: instr is_op_def)
  with assms show False
    unfolding instr
    by (auto simp: step_batch_def and_then_def getitem_def setitem_def lookup_def read_char_def
        as_uint8_def
        split: if_splits sum.splits prod.splits option.splits list.splits numpy.splits
        dest: advance_error)
qed

lemma loop_batch_RuntimeError:
  "loop_batch fuel np debug jt ops st = Some (Some (RuntimeError c), st') \<Longrightarrow>
     \<exists>instr \<in> set ops. \<not> is_op (fst instr)"
proof (induction fuel arbitrary: st)
  case 0
  then show ?case by (simp add: loop_batch_0 split: if_splits)
next
  case (Suc fuel)
  show ?case
  proof (cases "ip st < length ops")
    case False
    with Suc.prems show ?thesis by (simp add: loop_batch_Suc)
  next
    case True
    show ?thesis
    proof (cases "step_batch np debug jt (ops ! ip st) st")
      case (Inl err)
      with True Suc.prems have "err = RuntimeError c" by (simp add: loop_batch_Suc)
      with Inl have "\<not> is_op (fst (ops ! ip st))" by (simp add: step_batch_RuntimeError)
      with True show ?thesis by (meson nth_mem)
    next
      case (Inr nxt)
      with True Suc.prems have "loop_batch fuel np debug jt ops nxt = Some (Some (RuntimeError c), st')"
        by (simp add: loop_batch_Suc)
      then show ?thesis by (rule Suc.IH)
    qed
  qed
qed

lemma scan_error: "scan i cs table stack = Inl e \<Longrightarrow> \<exists>j. e = UnmatchedCloseBracket j"
  by (induction cs arbitrary: i table stack) (auto split: if_splits list.splits)

lemma build_jump_table_error:
  "build_jump_table code = Inl e \<Longrightarrow> (\<exists>j. e = UnmatchedCloseBracket j) \<or> (\<exists>j. e = UnmatchedOpenBracket j)"
  by (auto simp: build_jump_table_def and_then_def split: sum.splits list.splits dest: scan_error)

text \<open>
  Claim C9: on every instruction sequence that \<^verbatim>\<open>parse_code\<close> of \<^verbatim>\<open>02_batch.py\<close>
  produces, the \<^verbatim>\<open>case _\<close> arm of the loop is unreachable: \<^verbatim>\<open>run\<close> never raises
  \<^verbatim>\<open>RuntimeError('Invalid instruction: ...')\<close>.

  For every text, input, fuel, NumPy rule and debug flag, no run ends in a
  \<open>RuntimeError\<close>: the encoder emits operators only, the jump table raises nothing but
  its two syntax errors, and a step on an operator never reaches the default arm. The
  arm itself is live: a sequence holding \<^verbatim>\<open>x\<close>, which the encoder cannot produce,
  raises the error at once.
\<close>

theorem default_arm_unreachable:
  "run_batch fuel np debug (parse_code_batch raw) inp \<noteq> Some (Some (RuntimeError c), st)
   \<and> run_batch (Suc k) np debug [(CHR ''x'', 1)] inp =
       Some (Some (RuntimeError CHR ''x''), initial inp)"
proof
  show "run_batch fuel np debug (parse_code_batch raw) inp \<noteq> Some (Some (RuntimeError c), st)"
  proof
    assume run: "run_batch fuel np debug (parse_code_batch raw) inp = Some (Some (RuntimeError c), st)"
    show False
    proof (cases "build_jump_table_batch (parse_code_batch raw)")
      case (Inl e)
      with run have "e = RuntimeError c" by (simp add: run_batch_def)
      with Inl show False
        unfolding build_jump_table_batch_def by (auto dest: build_jump_table_error)
    next
      case (Inr jt)
      with run have "loop_batch fuel np debug jt (parse_code_batch raw) (initial inp) =
          Some (Some (RuntimeError c), st)"
        by (simp add: run_batch_def)
      then have "\<exists>instr \<in> set (parse_code_batch raw). \<not> is_op (fst instr)"
        by (rule loop_batch_RuntimeError)
      with parse_code_batch_ops [of raw] show False by blast
    qed
  qed
  show "run_batch (Suc k) np debug [(CHR ''x'', 1)] inp =
       Some (Some (RuntimeError CHR ''x''), initial inp)"
    by (simp add: run_batch_def build_jump_table_batch_def build_jump_table_def and_then_def
        loop_batch_Suc step_batch_def initial_def)
qed

subsection \<open>Programs without brackets\<close>






























subsection \<open>The debug trace\<close>

lemma untraced_fields [simp]:
  "ip (untraced st) = ip st" "ptr (untraced st) = ptr st" "tape (untraced st) = tape st"
  "stdin (untraced st) = stdin st"
  by (simp_all add: untraced_def)

lemma untraced_updates [simp]:
  "untraced (st\<lparr>ip := i\<rparr>) = (untraced st)\<lparr>ip := i\<rparr>"
  "untraced (st\<lparr>ptr := p\<rparr>) = (untraced st)\<lparr>ptr := p\<rparr>"
  "untraced (st\<lparr>tape := t\<rparr>) = (untraced st)\<lparr>tape := t\<rparr>"
  "untraced (st\<lparr>stdin := r\<rparr>) = (untraced st)\<lparr>stdin := r\<rparr>"
  by (simp_all add: untraced_def)

lemma advance_untraced:
  "ptr s < length (tape s) \<Longrightarrow>
     map_sum id untraced (advance True cmd s) = advance False cmd (untraced s)"
  by (simp add: advance_def and_then_def getitem_def untraced_def)

lemma step_simple_untraced:
  assumes "in_bounds st"
  shows "map_sum id untraced (step_simple np True jt cmd st) = step_simple np False jt cmd (untraced st)"
proof -
  from assms have p: "ptr st < length (tape st)" and len: "length (tape st) = tape_size"
    by (simp_all add: in_bounds_iff)
  have out: "untraced (st\<lparr>stdout := stdout st @ [Chr n]\<rparr>) =
      (untraced st)\<lparr>stdout := stdout (untraced st) @ [Chr n]\<rparr>" for n
    by (simp add: untraced_def)
  consider "cmd = CHR ''>''" | "cmd = CHR ''<''" | "cmd = CHR ''+''" | "cmd = CHR ''-''"
    | "cmd = CHR '',''" | "cmd = CHR ''.''" | "cmd = CHR ''[''" | "cmd = CHR '']''"
    | "cmd \<notin> set ''><+-,.[]''"
    by auto
  then show ?thesis
  proof cases
    case 1
    have "ptr (st\<lparr>ptr := (ptr st + 1) mod tape_size\<rparr>) < length (tape (st\<lparr>ptr := (ptr st + 1) mod tape_size\<rparr>))"
      by (simp add: len tape_size_def)
    from advance_untraced [OF this] show ?thesis using 1 by (simp add: step_simple_def)
  next
    case 2
    have "ptr (st\<lparr>ptr := nat ((int (ptr st) - 1) mod int tape_size)\<rparr>)
        < length (tape (st\<lparr>ptr := nat ((int (ptr st) - 1) mod int tape_size)\<rparr>))"
      by (simp add: len ptr_wraps)
    from advance_untraced [OF this] show ?thesis using 2 by (simp add: step_simple_def)
  next
    case 3
    have "ptr (st\<lparr>tape := (tape st)[ptr st := tape st ! ptr st + 1]\<rparr>)
        < length (tape (st\<lparr>tape := (tape st)[ptr st := tape st ! ptr st + 1]\<rparr>))"
      using p by simp
    from advance_untraced [OF this] show ?thesis
      using 3 p by (simp add: step_simple_def and_then_def getitem_def setitem_def)
  next
    case 4
    have "ptr (st\<lparr>tape := (tape st)[ptr st := tape st ! ptr st - 1]\<rparr>)
        < length (tape (st\<lparr>tape := (tape st)[ptr st := tape st ! ptr st - 1]\<rparr>))"
      using p by simp
    from advance_untraced [OF this] show ?thesis
      using 4 p by (simp add: step_simple_def and_then_def getitem_def setitem_def)
  next
    case 5
    show ?thesis
    proof (cases "read_char np (stdin st)")
      case (Inl e)
      with 5 show ?thesis by (simp add: step_simple_def and_then_def)
    next
      case (Inr r)
      obtain v rest where r: "r = (v, rest)" by (cases r)
      have "ptr (st\<lparr>tape := (tape st)[ptr st := v], stdin := rest\<rparr>)
          < length (tape (st\<lparr>tape := (tape st)[ptr st := v], stdin := rest\<rparr>))"
        using p by simp
      from advance_untraced [OF this] show ?thesis
        using 5 p Inr r by (simp add: step_simple_def and_then_def setitem_def)
    qed
  next
    case 6
    have "ptr (st\<lparr>stdout := stdout st @ [Chr (unat (tape st ! ptr st))]\<rparr>)
        < length (tape (st\<lparr>stdout := stdout st @ [Chr (unat (tape st ! ptr st))]\<rparr>))"
      using p by simp
    from advance_untraced [OF this] show ?thesis
      using 6 p by (simp add: step_simple_def and_then_def getitem_def out)
  next
    case 7
    from advance_untraced [OF p] show ?thesis
      using 7 p by (cases "jt (ip st)")
        (simp_all add: step_simple_def and_then_def getitem_def lookup_def)
  next
    case 8
    from advance_untraced [OF p] show ?thesis
      using 8 p by (cases "jt (ip st)")
        (simp_all add: step_simple_def and_then_def getitem_def lookup_def)
  next
    case 9
    from advance_untraced [OF p] show ?thesis
      using 9 by (simp add: step_simple_def)
  qed
qed

lemma step_batch_untraced:
  assumes "in_bounds st"
  shows "map_sum id untraced (step_batch np True jt instr st) = step_batch np False jt instr (untraced st)"
proof -
  obtain cmd count where instr: "instr = (cmd, count)" by (cases instr)
  from assms have p: "ptr st < length (tape st)" and len: "length (tape st) = tape_size"
    by (simp_all add: in_bounds_iff)
  have out: "untraced (st\<lparr>stdout := stdout st @ replicate n (Chr m)\<rparr>) =
      (untraced st)\<lparr>stdout := stdout (untraced st) @ replicate n (Chr m)\<rparr>" for n m
    by (simp add: untraced_def)
  consider "cmd = CHR ''>''" | "cmd = CHR ''<''" | "cmd = CHR ''+''" | "cmd = CHR ''-''"
    | "cmd = CHR '',''" | "cmd = CHR ''.''" | "cmd = CHR ''[''" | "cmd = CHR '']''"
    | "cmd \<notin> set ''><+-,.[]''"
    by auto
  then show ?thesis
  proof cases
    case 1
    have "ptr (st\<lparr>ptr := nat ((int (ptr st) + count) mod int tape_size)\<rparr>)
        < length (tape (st\<lparr>ptr := nat ((int (ptr st) + count) mod int tape_size)\<rparr>))"
      by (simp add: len ptr_wraps)
    from advance_untraced [OF this] show ?thesis using 1 by (simp add: instr step_batch_def)
  next
    case 2
    have "ptr (st\<lparr>ptr := nat ((int (ptr st) - count) mod int tape_size)\<rparr>)
        < length (tape (st\<lparr>ptr := nat ((int (ptr st) - count) mod int tape_size)\<rparr>))"
      by (simp add: len ptr_wraps)
    from advance_untraced [OF this] show ?thesis using 2 by (simp add: instr step_batch_def)
  next
    case 3
    show ?thesis
    proof (cases "as_uint8 np count")
      case (Inl e)
      with 3 p show ?thesis by (simp add: instr step_batch_def and_then_def getitem_def)
    next
      case (Inr n)
      have "ptr (st\<lparr>tape := (tape st)[ptr st := tape st ! ptr st + n]\<rparr>)
          < length (tape (st\<lparr>tape := (tape st)[ptr st := tape st ! ptr st + n]\<rparr>))"
        using p by simp
      from advance_untraced [OF this] show ?thesis
        using 3 p Inr by (simp add: instr step_batch_def and_then_def getitem_def setitem_def)
    qed
  next
    case 4
    show ?thesis
    proof (cases "as_uint8 np count")
      case (Inl e)
      with 4 p show ?thesis by (simp add: instr step_batch_def and_then_def getitem_def)
    next
      case (Inr n)
      have "ptr (st\<lparr>tape := (tape st)[ptr st := tape st ! ptr st - n]\<rparr>)
          < length (tape (st\<lparr>tape := (tape st)[ptr st := tape st ! ptr st - n]\<rparr>))"
        using p by simp
      from advance_untraced [OF this] show ?thesis
        using 4 p Inr by (simp add: instr step_batch_def and_then_def getitem_def setitem_def)
    qed
  next
    case 5
    show ?thesis
    proof (cases "read_char np (stdin st)")
      case (Inl e)
      with 5 show ?thesis by (simp add: instr step_batch_def and_then_def)
    next
      case (Inr r)
      obtain v rest where r: "r = (v, rest)" by (cases r)
      have "ptr (st\<lparr>tape := (tape st)[ptr st := v], stdin := rest\<rparr>)
          < length (tape (st\<lparr>tape := (tape st)[ptr st := v], stdin := rest\<rparr>))"
        using p by simp
      from advance_untraced [OF this] show ?thesis
        using 5 p Inr r by (simp add: instr step_batch_def and_then_def setitem_def)
    qed
  next
    case 6
    let ?s = "st\<lparr>stdout := stdout st @ replicate (nat count) (Chr (unat (tape st ! ptr st)))\<rparr>"
    have "ptr ?s < length (tape ?s)" using p by simp
    from advance_untraced [OF this] show ?thesis
      using 6 p by (simp add: instr step_batch_def and_then_def getitem_def out)
  next
    case 7
    from advance_untraced [OF p] show ?thesis
      using 7 p by (cases "jt (ip st)")
        (simp_all add: instr step_batch_def and_then_def getitem_def lookup_def)
  next
    case 8
    from advance_untraced [OF p] show ?thesis
      using 8 p by (cases "jt (ip st)")
        (simp_all add: instr step_batch_def and_then_def getitem_def lookup_def)
  next
    case 9
    then show ?thesis by (simp add: instr step_batch_def)
  qed
qed

lemma loop_simple_untraced:
  "in_bounds st \<Longrightarrow>
     map_option (map_prod id untraced) (loop_simple fuel np True jt code st) =
       loop_simple fuel np False jt code (untraced st)"
proof (induction fuel arbitrary: st)
  case 0
  then show ?case by (simp add: loop_simple_0)
next
  case (Suc fuel)
  show ?case
  proof (cases "step_simple np True jt (code ! ip st) st")
    case (Inl e)
    with step_simple_untraced [OF Suc.prems, of np jt "code ! ip st"]
    have "step_simple np False jt (code ! ip st) (untraced st) = Inl e" by simp
    with Inl show ?thesis by (simp add: loop_simple_Suc)
  next
    case (Inr nxt)
    with step_simple_untraced [OF Suc.prems, of np jt "code ! ip st"]
    have f: "step_simple np False jt (code ! ip st) (untraced st) = Inr (untraced nxt)" by simp
    have "in_bounds nxt" using Inr Suc.prems by (rule step_simple_in_bounds)
    from Suc.IH [OF this] show ?thesis using Inr f by (simp add: loop_simple_Suc)
  qed
qed

lemma loop_batch_untraced:
  "in_bounds st \<Longrightarrow>
     map_option (map_prod id untraced) (loop_batch fuel np True jt ops st) =
       loop_batch fuel np False jt ops (untraced st)"
proof (induction fuel arbitrary: st)
  case 0
  then show ?case by (simp add: loop_batch_0)
next
  case (Suc fuel)
  show ?case
  proof (cases "step_batch np True jt (ops ! ip st) st")
    case (Inl e)
    with step_batch_untraced [OF Suc.prems, of np jt "ops ! ip st"]
    have "step_batch np False jt (ops ! ip st) (untraced st) = Inl e" by simp
    with Inl show ?thesis by (simp add: loop_batch_Suc)
  next
    case (Inr nxt)
    with step_batch_untraced [OF Suc.prems, of np jt "ops ! ip st"]
    have f: "step_batch np False jt (ops ! ip st) (untraced st) = Inr (untraced nxt)" by simp
    have "in_bounds nxt" using Inr Suc.prems by (rule step_batch_in_bounds)
    from Suc.IH [OF this] show ?thesis using Inr f by (simp add: loop_batch_Suc)
  qed
qed

lemma untraced_initial: "untraced (initial inp) = initial inp"
  by (simp add: untraced_def initial_def)

lemma run_simple_untraced:
  "map_option (map_prod id untraced) (run_simple fuel np True code inp) = run_simple fuel np False code inp"
  using loop_simple_untraced [OF in_bounds_initial, of fuel np _ code inp]
  by (simp add: run_simple_def untraced_initial split: sum.splits)

lemma run_batch_untraced:
  "map_option (map_prod id untraced) (run_batch fuel np True ops inp) = run_batch fuel np False ops inp"
  using loop_batch_untraced [OF in_bounds_initial, of fuel np _ ops inp]
  by (simp add: run_batch_def untraced_initial split: sum.splits)

text \<open>
  Claim C5: with debug mode on, a trace record is emitted after every executed
  instruction, also one whose bracket condition caused a jump, and the trace changes
  neither the control flow nor the final state.

  A bracket that jumps leaves the iteration by \<^verbatim>\<open>continue\<close>, before the
  \<^verbatim>\<open>if debug\<close> that prints: the step of the \<^verbatim>\<open>[\<close> on a zero cell only sets
  \<^verbatim>\<open>ip\<close>. On \<^verbatim>\<open>[]\<close> two instructions are executed and standard output holds one
  record, the one of the \<^verbatim>\<open>]\<close> at index 1. The other half of the claim holds: a run
  with debug mode on, its debug lines taken out, is the run with debug mode off, with
  the same exception or the same final state.
\<close>

theorem no_trace_for_jumping_bracket:
  "step_simple np True [0 \<mapsto> 1, 1 \<mapsto> 0] CHR ''['' (initial inp) = Inr ((initial inp)\<lparr>ip := 1\<rparr>)
   \<and> step_batch np True [0 \<mapsto> 1, 1 \<mapsto> 0] (CHR ''['', 1) (initial inp) = Inr ((initial inp)\<lparr>ip := 1\<rparr>)
   \<and> run_simple (2 + k) np True (parse_code_simple ''[]'') inp =
       Some (None, (initial inp)\<lparr>ip := 2, stdout := [Trace 1 CHR '']'' 0 0]\<rparr>)
   \<and> run_batch (2 + k) np True (parse_code_batch ''[]'') inp =
       Some (None, (initial inp)\<lparr>ip := 2, stdout := [Trace 1 CHR '']'' 0 0]\<rparr>)
   \<and> map_option (map_prod id untraced) (run_simple fuel np True code inp') =
       run_simple fuel np False code inp'
   \<and> map_option (map_prod id untraced) (run_batch fuel np True ops inp') =
       run_batch fuel np False ops inp'"
proof (intro conjI)
  show "map_option (map_prod id untraced) (run_simple fuel np True code inp') =
       run_simple fuel np False code inp'"
    by (rule run_simple_untraced)
  show "map_option (map_prod id untraced) (run_batch fuel np True ops inp') =
       run_batch fuel np False ops inp'"
    by (rule run_batch_untraced)
  show "step_simple np True [0 \<mapsto> 1, 1 \<mapsto> 0] CHR ''['' (initial inp) = Inr ((initial inp)\<lparr>ip := 1\<rparr>)"
    by (simp add: eval_defs)
  show "step_batch np True [0 \<mapsto> 1, 1 \<mapsto> 0] (CHR ''['', 1) (initial inp) = Inr ((initial inp)\<lparr>ip := 1\<rparr>)"
    by (simp add: eval_defs)
  show "run_simple (2 + k) np True (parse_code_simple ''[]'') inp =
       Some (None, (initial inp)\<lparr>ip := 2, stdout := [Trace 1 CHR '']'' 0 0]\<rparr>)"
    by (rule run_simple_more) (simp add: eval_defs)
  show "run_batch (2 + k) np True (parse_code_batch ''[]'') inp =
       Some (None, (initial inp)\<lparr>ip := 2, stdout := [Trace 1 CHR '']'' 0 0]\<rparr>)"
    by (rule run_batch_more) (simp add: eval_defs)
qed

end
